theory Spec2Isabelle
  imports Complex_Main "HOL-Library.Char_ord" "HOL-Library.List_Lexorder" "HOL-Library.Sublist"
    "HOL-Library.Multiset"
begin

section \<open>Segment planner (calculate\_split\_points)\<close>

text \<open>
  Times are seconds.  The source computes with Python floats; the model uses
  the real numbers, so every statement below is about the planner's arithmetic
  without rounding.  The dataclass \<^verbatim>\<open>SilenceSegment\<close> has the fields
  \<^verbatim>\<open>start\<close>, \<^verbatim>\<open>end\<close> and \<^verbatim>\<open>duration\<close>.
\<close>

record SilenceSegment =
  sil_start :: real
  sil_end :: real
  sil_duration :: real

type_synonym window = "real \<times> real"

text \<open>
  The \<^verbatim>\<open>while current < total_duration\<close> loop of the branch without silences.
  It appends \<open>(current, end)\<close> and continues from \<open>end\<close>; a run that never
  leaves the loop is the value \<open>None\<close>.
\<close>

partial_function (option) tile_loop ::
  "real \<Rightarrow> real \<Rightarrow> real \<Rightarrow> window list \<Rightarrow> window list option" where
  "tile_loop total_duration max_segment_length current segments =
     (if current < total_duration
      then tile_loop total_duration max_segment_length
             (min (current + max_segment_length) total_duration)
             (segments @ [(current, min (current + max_segment_length) total_duration)])
      else Some segments)"

text \<open>One iteration of \<^verbatim>\<open>for silence in silences\<close>, on the pair
  \<open>(segments, current_start)\<close>.\<close>

definition split_step ::
  "real \<Rightarrow> real \<Rightarrow> SilenceSegment \<Rightarrow> window list \<times> real \<Rightarrow> window list \<times> real" where
  "split_step min_segment_length max_segment_length silence st =
     (let segments = fst st; current_start = snd st;
          split_point = (sil_start silence + sil_end silence) / 2;
          segment_duration = split_point - current_start
      in if segment_duration \<ge> min_segment_length
         then (segments @ [(current_start, split_point)], split_point)
         else if segment_duration \<ge> max_segment_length
         then (segments @ [(current_start, split_point)], split_point)
         else (segments, current_start))"

definition walk ::
  "real \<Rightarrow> real \<Rightarrow> SilenceSegment list \<Rightarrow> window list \<times> real \<Rightarrow> window list \<times> real" where
  "walk min_segment_length max_segment_length silences st =
     fold (split_step min_segment_length max_segment_length) silences st"

definition calculate_split_points ::
  "SilenceSegment list \<Rightarrow> real \<Rightarrow> real \<Rightarrow> real \<Rightarrow> window list option" where
  "calculate_split_points silences total_duration min_segment_length max_segment_length =
     (if silences = []
      then tile_loop total_duration max_segment_length 0 []
      else (let st = walk min_segment_length max_segment_length silences ([], 0);
                segments = fst st; current_start = snd st
            in if current_start < total_duration
               then Some (segments @ [(current_start, total_duration)])
               else Some segments))"

text \<open>The constructor call \<^verbatim>\<open>SilenceSegment(start=s, end=e, duration=e - s)\<close>
  of \<^verbatim>\<open>detect_silences\<close>.\<close>

definition silence_segment :: "real \<Rightarrow> real \<Rightarrow> SilenceSegment" where
  "silence_segment s e = \<lparr>sil_start = s, sil_end = e, sil_duration = e - s\<rparr>"

subsection \<open>The planner as the specification words it\<close>

text \<open>
  The specification's policy for a non-empty interval list, written as a
  recursion of its own: keep \<open>current_start\<close>; at the midpoint of each interval
  commit \<open>[current_start, midpoint)\<close> and advance exactly when
  \<open>midpoint - current_start \<ge> m\<close>; after the last interval commit the remainder
  \<open>[current_start, total_duration)\<close> when \<open>current_start < total_duration\<close>.
\<close>

definition midpoint_of :: "SilenceSegment \<Rightarrow> real" where
  "midpoint_of s = (sil_start s + sil_end s) / 2"

fun spec_commits :: "real \<Rightarrow> real \<Rightarrow> SilenceSegment list \<Rightarrow> window list" where
  "spec_commits m cur [] = []"
| "spec_commits m cur (s # ss) =
     (if midpoint_of s - cur \<ge> m
      then (cur, midpoint_of s) # spec_commits m (midpoint_of s) ss
      else spec_commits m cur ss)"

fun spec_current :: "real \<Rightarrow> real \<Rightarrow> SilenceSegment list \<Rightarrow> real" where
  "spec_current m cur [] = cur"
| "spec_current m cur (s # ss) =
     (if midpoint_of s - cur \<ge> m
      then spec_current m (midpoint_of s) ss
      else spec_current m cur ss)"

definition spec_plan :: "real \<Rightarrow> real \<Rightarrow> SilenceSegment list \<Rightarrow> window list" where
  "spec_plan m total_duration ss =
     spec_commits m 0 ss @
     (if spec_current m 0 ss < total_duration
      then [(spec_current m 0 ss, total_duration)] else [])"

text \<open>
  The specification's tiling of \<open>[0, total_duration)\<close> for an empty interval
  list: window \<open>i\<close> is \<open>[i * max_len, (i + 1) * max_len)\<close>, cut at
  \<open>total_duration\<close>, for \<open>i\<close> below \<open>\<lceil>total_duration / max_len\<rceil>\<close>.
\<close>

definition spec_tiling :: "real \<Rightarrow> real \<Rightarrow> window list" where
  "spec_tiling total_duration mx =
     map (\<lambda>i. (real i * mx, min (real (Suc i) * mx) total_duration))
       [0 ..< nat \<lceil>total_duration / mx\<rceil>]"


subsection \<open>Properties of interval and window lists\<close>

text \<open>Every interval lies within \<open>[0, total_duration]\<close>.\<close>

definition in_range :: "real \<Rightarrow> SilenceSegment list \<Rightarrow> bool" where
  "in_range total_duration ss =
     list_all (\<lambda>s. 0 \<le> sil_start s \<and> sil_start s \<le> sil_end s \<and> sil_end s \<le> total_duration) ss"

text \<open>Chronological order: each interval starts no earlier than the one before it
  ends.\<close>

fun chronological :: "SilenceSegment list \<Rightarrow> bool" where
  "chronological (a # b # ss) = (sil_end a \<le> sil_start b \<and> chronological (b # ss))"
| "chronological _ = True"

text \<open>The end of each window is the start of the next.\<close>

fun contiguous :: "window list \<Rightarrow> bool" where
  "contiguous (v # w # ws) = (snd v = fst w \<and> contiguous (w # ws))"
| "contiguous _ = True"

text \<open>Two windows, as half-open ranges \<open>[start, end)\<close>, share a point.\<close>

definition overlaps :: "window \<Rightarrow> window \<Rightarrow> bool" where
  "overlaps v w = (max (fst v) (fst w) < min (snd v) (snd w))"

fun no_overlap :: "window list \<Rightarrow> bool" where
  "no_overlap [] = True"
| "no_overlap (w # ws) = ((\<forall>v \<in> set ws. \<not> overlaps w v) \<and> no_overlap ws)"

text \<open>\<open>chain a ws b\<close>: the windows lead from \<open>a\<close> to \<open>b\<close> without gap, none
  of them reversed.\<close>

fun chain :: "real \<Rightarrow> window list \<Rightarrow> real \<Rightarrow> bool" where
  "chain a [] b = (a = b)"
| "chain a (w # ws) b = (fst w = a \<and> fst w \<le> snd w \<and> chain (snd w) ws b)"

fun mids_from :: "real \<Rightarrow> SilenceSegment list \<Rightarrow> bool" where
  "mids_from cur [] = True"
| "mids_from cur (s # ss) = (cur \<le> midpoint_of s \<and> mids_from (midpoint_of s) ss)"
section \<open>Python string operations\<close>

text \<open>
  A \<open>string\<close> stands for a Python \<^verbatim>\<open>str\<close> whose code points are below 256,
  one \<open>char\<close> per code point.  \<open>is_space\<close> is \<^verbatim>\<open>str.isspace\<close> on that range.
\<close>

datatype error = ValueError | IndexError | TypeError

definition is_space :: "char \<Rightarrow> bool" where
  "is_space c = (of_char c \<in> {9, 10, 11, 12, 13, 28, 29, 30, 31, 32, 133, 160 :: nat})"

text \<open>\<^verbatim>\<open>sub in s\<close>\<close>

fun str_contains :: "string \<Rightarrow> string \<Rightarrow> bool" where
  "str_contains sub [] = (sub = [])"
| "str_contains sub (c # cs) = (prefix sub (c # cs) \<or> str_contains sub cs)"

text \<open>\<^verbatim>\<open>s.split(sep)\<close> for a non-empty separator: \<open>split_on sep [] s\<close>; the
  second argument is the piece read so far.\<close>

function split_on :: "string \<Rightarrow> string \<Rightarrow> string \<Rightarrow> string list" where
  "split_on sep acc [] = [acc]"
| "split_on sep acc (c # cs) =
     (if sep \<noteq> [] \<and> prefix sep (c # cs)
      then acc # split_on sep [] (drop (length sep) (c # cs))
      else split_on sep (acc @ [c]) cs)"
  by pat_completeness auto
termination
  by (relation "measure (\<lambda>(sep, acc, s). length s)") auto

definition py_split :: "string \<Rightarrow> string \<Rightarrow> string list" where
  "py_split sep s = split_on sep [] s"

text \<open>\<^verbatim>\<open>s.strip()\<close>\<close>

definition strip :: "string \<Rightarrow> string" where
  "strip s = rev (dropWhile is_space (rev (dropWhile is_space s)))"

text \<open>\<^verbatim>\<open>s.split()\<close>: the maximal runs of non-whitespace; the first argument is
  the run read so far.\<close>

fun split_ws :: "string \<Rightarrow> string \<Rightarrow> string list" where
  "split_ws acc [] = (if acc = [] then [] else [acc])"
| "split_ws acc (c # cs) =
     (if is_space c
      then (if acc = [] then split_ws [] cs else acc # split_ws [] cs)
      else split_ws (acc @ [c]) cs)"

text \<open>\<^verbatim>\<open>s.strip().split()[0]\<close>, which raises \<^verbatim>\<open>IndexError\<close> when no token is
  there.\<close>

definition first_token :: "string \<Rightarrow> error + string" where
  "first_token s = (case split_ws [] (strip s) of [] \<Rightarrow> Inl IndexError | t # _ \<Rightarrow> Inr t)"

text \<open>
  \<^verbatim>\<open>float(s.strip().split()[0])\<close>.  Python's \<^verbatim>\<open>float\<close> is a builtin, not code of
  this repository: it is the parameter \<open>float_of\<close>, \<open>None\<close> where the builtin
  raises \<^verbatim>\<open>ValueError\<close>.
\<close>

definition leading_float :: "(string \<Rightarrow> real option) \<Rightarrow> string \<Rightarrow> error + real" where
  "leading_float float_of s =
     (case first_token s of
        Inl e \<Rightarrow> Inl e
      | Inr t \<Rightarrow> (case float_of t of None \<Rightarrow> Inl ValueError | Some x \<Rightarrow> Inr x))"

definition newline :: char where
  "newline = CHR 0x0A"

section \<open>Silence event parser (detect\_silences)\<close>




section \<open>Silence-ratio measurement and segment extraction\<close>

text \<open>
  \<^verbatim>\<open>calculate_segment_silence_ratio\<close>: \<open>stderr\<close> is what the silence detection
  run on the window printed; the loop adds up the \<^verbatim>\<open>silence_duration\<close> values.
\<close>

fun sum_silence ::
  "(string \<Rightarrow> real option) \<Rightarrow> string list \<Rightarrow> real \<Rightarrow> error + real" where
  "sum_silence float_of [] total_silence = Inr total_silence"
| "sum_silence float_of (line # rest) total_silence =
     (if str_contains ''silencedetect'' line \<and> str_contains ''silence_duration'' line
      then (let parts = py_split ''silence_duration:'' line
            in if length parts > 1
               then (case leading_float float_of (parts ! 1) of
                       Inl e \<Rightarrow> Inl e
                     | Inr x \<Rightarrow> sum_silence float_of rest (total_silence + x))
               else sum_silence float_of rest total_silence)
      else sum_silence float_of rest total_silence)"

definition calculate_segment_silence_ratio ::
  "(string \<Rightarrow> real option) \<Rightarrow> string \<Rightarrow> real \<Rightarrow> error + real" where
  "calculate_segment_silence_ratio float_of stderr dur =
     (case sum_silence float_of (py_split [newline] stderr) 0 of
        Inl e \<Rightarrow> Inl e
      | Inr total_silence \<Rightarrow> Inr (if dur > 0 then total_silence / dur else 0))"

record AudioSegment =
  filename :: string
  start_time :: real
  end_time :: real
  duration :: real
  segment_index :: nat

text \<open>\<^verbatim>\<open>str(n)\<close> for a natural number, and the format \<^verbatim>\<open>{n:03d}\<close>: the decimal
  digits, filled with zeros on the left up to three characters.\<close>

definition digit_char :: "nat \<Rightarrow> char" where
  "digit_char d = ''0123456789'' ! d"

fun digits_of :: "nat \<Rightarrow> string" where
  "digits_of n =
     (if n < 10 then [digit_char n] else digits_of (n div 10) @ [digit_char (n mod 10)])"

declare digits_of.simps [simp del]

definition fmt_03d :: "nat \<Rightarrow> string" where
  "fmt_03d n = replicate (3 - length (digits_of n)) CHR ''0'' @ digits_of n"

definition segment_wav :: "nat \<Rightarrow> string" where
  "segment_wav i = ''segment_'' @ fmt_03d i @ ''.wav''"

text \<open>
  What the two external calls made for one window do: \<open>ratio_stderr\<close> is the
  output of the silence detection run on the window, \<open>split_ok\<close> is the value
  \<^verbatim>\<open>split_audio_segment\<close> returns for it (\<open>False\<close> when the extraction call
  fails).
\<close>

record probe =
  ratio_stderr :: string
  split_ok :: bool

text \<open>
  The loop \<^verbatim>\<open>for start_time, end_time in split_points\<close> of
  \<^verbatim>\<open>process_audio_file\<close>; \<open>idx\<close> is the variable \<^verbatim>\<open>segment_index\<close>, \<open>t0\<close>
  and \<open>t1\<close> are \<^verbatim>\<open>start_time\<close> and \<^verbatim>\<open>end_time\<close>.
\<close>

fun process_windows ::
  "(string \<Rightarrow> real option) \<Rightarrow> real \<Rightarrow> nat \<Rightarrow> AudioSegment list \<Rightarrow>
   (window \<times> probe) list \<Rightarrow> error + AudioSegment list" where
  "process_windows float_of silence_ratio_threshold idx segments_metadata [] =
     Inr segments_metadata"
| "process_windows float_of silence_ratio_threshold idx segments_metadata
     (((t0, t1), pr) # rest) =
     (case calculate_segment_silence_ratio float_of (ratio_stderr pr) (t1 - t0) of
        Inl e \<Rightarrow> Inl e
      | Inr silence_ratio \<Rightarrow>
          if silence_ratio > silence_ratio_threshold
          then process_windows float_of silence_ratio_threshold idx segments_metadata rest
          else if split_ok pr
          then process_windows float_of silence_ratio_threshold (idx + 1)
                 (segments_metadata @
                    [\<lparr>filename = segment_wav idx, start_time = t0, end_time = t1,
                      duration = t1 - t0, segment_index = idx\<rparr>])
                 rest
          else process_windows float_of silence_ratio_threshold idx segments_metadata rest)"

definition process_audio_file ::
  "(string \<Rightarrow> real option) \<Rightarrow> real \<Rightarrow> (window \<times> probe) list \<Rightarrow> error + AudioSegment list" where
  "process_audio_file float_of silence_ratio_threshold split_points =
     process_windows float_of silence_ratio_threshold 1 [] split_points"

section \<open>Metadata ledger and transcript reassembly (merge\_transcripts)\<close>

text \<open>
  One entry of the ledger's \<^verbatim>\<open>segments\<close> array as \<^verbatim>\<open>merge_transcripts\<close> reads
  it: \<^verbatim>\<open>seg['filename']\<close>, \<^verbatim>\<open>seg.get('start_time', 0)\<close> and
  \<^verbatim>\<open>seg.get('end_time', 0)\<close>; \<open>None\<close> is an absent key.
\<close>

record ledger_entry =
  le_filename :: string
  le_start_time :: "real option"
  le_end_time :: "real option"

text \<open>\<^verbatim>\<open>asdict(seg)\<close> as far as the reassembler reads it.\<close>

definition asdict :: "AudioSegment \<Rightarrow> ledger_entry" where
  "asdict seg = \<lparr>le_filename = filename seg, le_start_time = Some (start_time seg),
                  le_end_time = Some (end_time seg)\<rparr>"

text \<open>
  The ledger document is a JSON object: its keys, which are distinct, with
  their values.  The value under \<^verbatim>\<open>segments\<close> is an array of entries when
  \<^verbatim>\<open>save_metadata\<close> wrote it; a number there makes \<^verbatim>\<open>len\<close> raise
  \<^verbatim>\<open>TypeError\<close>, a string makes \<^verbatim>\<open>seg['filename']\<close> raise it on its first
  character, and the empty string is a sequence without elements.
\<close>

datatype jvalue = JString string | JNumber real | JSegments "ledger_entry list"

type_synonym metadata = "(string \<times> jvalue) list"

text \<open>A file of the transcripts directory: not there, there but \<^verbatim>\<open>read_text\<close>
  raises, or its text.\<close>

datatype file_state = Absent | Unreadable | Text string

datatype message =
    CouldNotLoadMetadata
  | FoundSegments nat
  | FoundFiles nat
  | TranscriptNotFound string
  | CouldNotRead string
  | Saved
  | CouldNotWrite
  | NoContent

record merge_result =
  returned :: bool
  merged_parts :: "string list"
  written :: "string option"
  messages :: "message list"

text \<open>\<^verbatim>\<open>Path(p).stem\<close> of pathlib for a relative path without \<^verbatim>\<open>.\<close> or empty
  components: the final component without its last suffix.\<close>

definition rfind :: "char \<Rightarrow> string \<Rightarrow> nat option" where
  "rfind c s =
     (if c \<in> set s then Some (length s - 1 - length (takeWhile (\<lambda>d. d \<noteq> c) (rev s))) else None)"

definition stem :: "string \<Rightarrow> string" where
  "stem p =
     (let name = last (py_split ''/'' p)
      in case rfind CHR ''.'' name of
           None \<Rightarrow> name
         | Some i \<Rightarrow> if 0 < i \<and> i < length name - 1 then take i name else name)"

definition transcript_name :: "ledger_entry \<Rightarrow> string" where
  "transcript_name seg = stem (le_filename seg) @ ''.txt''"

text \<open>The header line of a block; \<open>fmt\<close> is Python's format \<^verbatim>\<open>:.1f\<close>.\<close>

definition header :: "(real \<Rightarrow> string) \<Rightarrow> ledger_entry \<Rightarrow> string" where
  "header fmt seg =
     (let t0 = (case le_start_time seg of None \<Rightarrow> 0 | Some x \<Rightarrow> x);
          t1 = (case le_end_time seg of None \<Rightarrow> 0 | Some x \<Rightarrow> x)
      in ''=== '' @ le_filename seg @ '' ('' @ fmt t0 @ ''s - '' @ fmt t1 @ ''s) ==='')"

text \<open>The loop \<^verbatim>\<open>for seg in segments\<close> on \<open>(merged_parts, messages)\<close>.\<close>

fun merge_ledger ::
  "(real \<Rightarrow> string) \<Rightarrow> (string \<Rightarrow> file_state) \<Rightarrow> ledger_entry list \<Rightarrow>
   string list \<times> message list \<Rightarrow> string list \<times> message list" where
  "merge_ledger fmt files [] st = st"
| "merge_ledger fmt files (seg # rest) st =
     (let parts = fst st; msgs = snd st; txt_file = transcript_name seg
      in case files txt_file of
           Absent \<Rightarrow> merge_ledger fmt files rest (parts, msgs @ [TranscriptNotFound txt_file])
         | Unreadable \<Rightarrow> merge_ledger fmt files rest (parts, msgs @ [CouldNotRead txt_file])
         | Text t \<Rightarrow>
             (let content = strip t
              in if content \<noteq> []
                 then merge_ledger fmt files rest (parts @ [header fmt seg, content, []], msgs)
                 else merge_ledger fmt files rest (parts, msgs)))"

text \<open>The pattern \<^verbatim>\<open>segment_*.txt\<close> of the fallback's \<^verbatim>\<open>glob\<close>.\<close>

definition glob_segment_txt :: "string \<Rightarrow> bool" where
  "glob_segment_txt name =
     (prefix ''segment_'' name \<and> suffix ''.txt'' name \<and> 12 \<le> length name)"

text \<open>\<^verbatim>\<open>sorted(transcripts_dir.glob("segment_*.txt"))\<close>: \<open>listing\<close> is the
  directory's names in the order the file system yields them; paths of one
  directory compare as their names do, code point by code point.\<close>

definition fallback_files :: "string list \<Rightarrow> string list" where
  "fallback_files listing = sort (filter glob_segment_txt listing)"

text \<open>The loop \<^verbatim>\<open>for txt_file in txt_files\<close>.\<close>

fun merge_fallback ::
  "(string \<Rightarrow> file_state) \<Rightarrow> string list \<Rightarrow>
   string list \<times> message list \<Rightarrow> string list \<times> message list" where
  "merge_fallback files [] st = st"
| "merge_fallback files (txt_file # rest) st =
     (let parts = fst st; msgs = snd st
      in case files txt_file of
           Text t \<Rightarrow>
             (let content = strip t
              in if content \<noteq> []
                 then merge_fallback files rest
                        (parts @ [''=== '' @ txt_file @ '' ==='', content, []], msgs)
                 else merge_fallback files rest (parts, msgs))
         | _ \<Rightarrow> merge_fallback files rest (parts, msgs @ [CouldNotRead txt_file]))"

text \<open>\<^verbatim>\<open>'\n'.join(merged_parts)\<close>\<close>

fun join_lines :: "string list \<Rightarrow> string" where
  "join_lines [] = []"
| "join_lines [x] = x"
| "join_lines (x # y # ys) = x @ [newline] @ join_lines (y # ys)"

text \<open>The condition \<^verbatim>\<open>metadata and 'segments' in metadata\<close>: the document was
  loaded, is not the empty object and has the key.\<close>

definition uses_ledger :: "metadata option \<Rightarrow> bool" where
  "uses_ledger metadata =
     (case metadata of
        None \<Rightarrow> False
      | Some md \<Rightarrow> md \<noteq> [] \<and> ''segments'' \<in> set (map fst md))"

text \<open>The last statement of \<^verbatim>\<open>merge_transcripts\<close>; \<open>write_ok\<close> says whether
  writing the merged file goes through.\<close>

definition write_merged :: "bool \<Rightarrow> string list \<times> message list \<Rightarrow> merge_result" where
  "write_merged write_ok st =
     (let parts = fst st; msgs = snd st
      in if parts \<noteq> []
         then (if write_ok
               then \<lparr>returned = True, merged_parts = parts,
                     written = Some (join_lines parts), messages = msgs @ [Saved]\<rparr>
               else \<lparr>returned = False, merged_parts = parts,
                     written = None, messages = msgs @ [CouldNotWrite]\<rparr>)
         else \<lparr>returned = False, merged_parts = parts,
               written = None, messages = msgs @ [NoContent]\<rparr>)"

text \<open>
  \<^verbatim>\<open>merge_transcripts\<close>: \<open>metadata\<close> is \<open>None\<close> when opening or parsing
  \<^verbatim>\<open>metadata.json\<close> raised, \<open>files\<close> is the transcripts directory by name.
\<close>

definition merge_transcripts ::
  "(real \<Rightarrow> string) \<Rightarrow> metadata option \<Rightarrow> (string \<Rightarrow> file_state) \<Rightarrow> string list \<Rightarrow> bool \<Rightarrow>
   error + merge_result" where
  "merge_transcripts fmt metadata files listing write_ok =
     (let msgs = (if metadata = None then [CouldNotLoadMetadata] else [])
      in if uses_ledger metadata
         then (case map_of (the metadata) ''segments'' of
                 Some (JSegments segments) \<Rightarrow>
                   Inr (write_merged write_ok
                          (merge_ledger fmt files segments
                             ([], msgs @ [FoundSegments (length segments)])))
               | Some (JString s) \<Rightarrow>
                   if s = [] then Inr (write_merged write_ok ([], msgs @ [FoundSegments 0]))
                   else Inl TypeError
               | _ \<Rightarrow> Inl TypeError)
         else (let txt_files = fallback_files listing
               in Inr (write_merged write_ok
                         (merge_fallback files txt_files
                            ([], msgs @ [FoundFiles (length txt_files)])))))"
subsection \<open>What the loop is expected to return\<close>

text \<open>The silence ratio measured for a window, or the exception of the
  measurement.\<close>

definition measured :: "(string \<Rightarrow> real option) \<Rightarrow> window \<times> probe \<Rightarrow> error + real" where
  "measured float_of wp =
     calculate_segment_silence_ratio float_of (ratio_stderr (snd wp)) (snd (fst wp) - fst (fst wp))"

text \<open>The window passes the silence-ratio filter and its extraction succeeds.\<close>

definition survives :: "(string \<Rightarrow> real option) \<Rightarrow> real \<Rightarrow> window \<times> probe \<Rightarrow> bool" where
  "survives float_of thr wp =
     (case measured float_of wp of
        Inl e \<Rightarrow> False
      | Inr r \<Rightarrow> \<not> r > thr \<and> split_ok (snd wp))"

text \<open>The record appended for window \<open>w\<close> under index \<open>i\<close>, and the records of
  a window list numbered from \<open>i\<close>.\<close>

definition record_of :: "nat \<Rightarrow> window \<Rightarrow> AudioSegment" where
  "record_of i w = \<lparr>filename = segment_wav i, start_time = fst w, end_time = snd w,
                     duration = snd w - fst w, segment_index = i\<rparr>"

fun number_from :: "nat \<Rightarrow> window list \<Rightarrow> AudioSegment list" where
  "number_from i [] = []"
| "number_from i (w # ws) = record_of i w # number_from (Suc i) ws"

text \<open>Python's \<^verbatim>\<open>float\<close> on the tokens of the examples below; \<^verbatim>\<open>float("abc")\<close>
  raises \<^verbatim>\<open>ValueError\<close>, as every token outside this table does here.\<close>

definition float_table :: "string \<Rightarrow> real option" where
  "float_table s =
     (if s = ''95'' then Some 95 else if s = ''90'' then Some 90
      else if s = ''10'' then Some 10 else None)"

subsection \<open>What the ledger-driven merge is expected to collect\<close>

text \<open>The record's transcript file is there, readable and not empty after
  trimming.\<close>

definition has_text :: "(string \<Rightarrow> file_state) \<Rightarrow> ledger_entry \<Rightarrow> bool" where
  "has_text files seg =
     (case files (transcript_name seg) of Text t \<Rightarrow> strip t \<noteq> [] | _ \<Rightarrow> False)"

text \<open>The labeled block of a record: header line, trimmed transcript, blank
  line.\<close>

definition block_of :: "(real \<Rightarrow> string) \<Rightarrow> (string \<Rightarrow> file_state) \<Rightarrow> ledger_entry \<Rightarrow> string list" where
  "block_of fmt files seg =
     (case files (transcript_name seg) of
        Text t \<Rightarrow> [header fmt seg, strip t, []]
      | _ \<Rightarrow> [])"

text \<open>The warning a record causes: its transcript is missing or cannot be
  read.\<close>

definition warning_of :: "(string \<Rightarrow> file_state) \<Rightarrow> ledger_entry \<Rightarrow> message list" where
  "warning_of files seg =
     (case files (transcript_name seg) of
        Absent \<Rightarrow> [TranscriptNotFound (transcript_name seg)]
      | Unreadable \<Rightarrow> [CouldNotRead (transcript_name seg)]
      | Text t \<Rightarrow> [])"

text \<open>The format \<^verbatim>\<open>:.1f\<close> on the times of the examples below.\<close>

definition fmt_table :: "real \<Rightarrow> string" where
  "fmt_table x = (if x = 0 then ''0.0'' else if x = 41 then ''41.0'' else ''100.5'')"

text \<open>A transcripts directory with \<^verbatim>\<open>segment_001.txt\<close> and \<^verbatim>\<open>segment_003.txt\<close>.\<close>

definition two_transcripts :: "string \<Rightarrow> file_state" where
  "two_transcripts name =
     (if name = ''segment_001.txt'' then Text '' hello ''
      else if name = ''segment_003.txt'' then Text ''world''
      else Absent)"
subsection \<open>Transcript names\<close>

text \<open>The transcript of the segment with index \<open>i\<close>: the stem of the
  extractor's file name \<^verbatim>\<open>segment_{i:03d}.wav\<close> with the suffix \<^verbatim>\<open>.txt\<close>.\<close>

definition segment_txt :: "nat \<Rightarrow> string" where
  "segment_txt i = ''segment_'' @ fmt_03d i @ ''.txt''"

section \<open>The planner: proofs\<close>

lemma walk_spec:
  "walk mn mx ss (segs, cur) =
     (segs @ spec_commits (min mn mx) cur ss, spec_current (min mn mx) cur ss)"
proof (induction ss arbitrary: segs cur)
  case Nil
  then show ?case by (simp add: walk_def)
next
  case (Cons s ss)
  have step: "split_step mn mx s (segs, cur) =
      (if midpoint_of s - cur \<ge> min mn mx
       then (segs @ [(cur, midpoint_of s)], midpoint_of s) else (segs, cur))"
    by (auto simp: split_step_def Let_def midpoint_of_def min_def)
  have "walk mn mx (s # ss) (segs, cur) = walk mn mx ss (split_step mn mx s (segs, cur))"
    by (simp add: walk_def)
  then show ?case
    using Cons.IH by (simp add: step)
qed

lemma chain_append:
  "chain a xs b \<Longrightarrow> chain b ys c \<Longrightarrow> chain a (xs @ ys) c"
  by (induction xs arbitrary: a) auto

lemma chain_le: "chain a ws b \<Longrightarrow> a \<le> b"
  by (induction ws arbitrary: a) force+

lemma chain_bounds:
  "chain a ws b \<Longrightarrow> w \<in> set ws \<Longrightarrow> a \<le> fst w \<and> fst w \<le> snd w \<and> snd w \<le> b"
proof (induction ws arbitrary: a)
  case Nil
  then show ?case by simp
next
  case (Cons v ws)
  show ?case
  proof (cases "w = v")
    case True
    with Cons.prems chain_le [of "snd v" ws b] show ?thesis by simp
  next
    case False
    with Cons.prems have "w \<in> set ws" "chain (snd v) ws b" "a \<le> snd v" by auto
    with Cons.IH [of "snd v"] show ?thesis by simp
  qed
qed

lemma chain_hd_last:
  "chain a ws b \<Longrightarrow> ws \<noteq> [] \<Longrightarrow> fst (hd ws) = a \<and> snd (last ws) = b"
proof (induction ws arbitrary: a)
  case Nil
  then show ?case by simp
next
  case (Cons v ws)
  then show ?case by (cases ws) auto
qed

lemma chain_contiguous: "chain a ws b \<Longrightarrow> contiguous ws"
proof (induction ws arbitrary: a)
  case Nil
  then show ?case by simp
next
  case (Cons v ws)
  then show ?case by (cases ws) auto
qed

lemma chain_no_overlap: "chain a ws b \<Longrightarrow> no_overlap ws"
proof (induction ws arbitrary: a)
  case Nil
  then show ?case by simp
next
  case (Cons v ws)
  from Cons.prems have c: "chain (snd v) ws b" by simp
  have "\<not> overlaps v w" if "w \<in> set ws" for w
    using chain_bounds [OF c that] by (simp add: overlaps_def)
  with Cons.IH [OF c] show ?case by simp
qed

lemma mids_from_mono: "mids_from c ss \<Longrightarrow> c' \<le> c \<Longrightarrow> mids_from c' ss"
  by (cases ss) auto

lemma chain_commits:
  "mids_from cur ss \<Longrightarrow> chain cur (spec_commits m cur ss) (spec_current m cur ss)"
proof (induction ss arbitrary: cur)
  case Nil
  then show ?case by simp
next
  case (Cons s ss)
  then have "mids_from cur ss" using mids_from_mono [of "midpoint_of s" ss cur] by simp
  with Cons show ?case by simp
qed

lemma current_cases:
  "spec_current m cur ss = cur \<and> spec_commits m cur ss = [] \<or>
   spec_current m cur ss \<in> midpoint_of ` set ss \<and> spec_commits m cur ss \<noteq> []"
  by (induction ss arbitrary: cur) auto

lemma mids_from_chrono:
  "in_range t ss \<Longrightarrow> chronological ss \<Longrightarrow> (ss \<noteq> [] \<Longrightarrow> c \<le> midpoint_of (hd ss)) \<Longrightarrow> mids_from c ss"
proof (induction ss arbitrary: c)
  case Nil
  then show ?case by simp
next
  case (Cons s ss)
  have w: "in_range t ss" using Cons.prems(1) by (simp add: in_range_def)
  have c: "chronological ss" using Cons.prems(2) by (cases ss) auto
  have "midpoint_of s \<le> midpoint_of (hd ss)" if "ss \<noteq> []"
  proof -
    from that obtain b bs where ss: "ss = b # bs" by (cases ss) auto
    with Cons.prems show ?thesis by (simp add: in_range_def midpoint_of_def)
  qed
  with Cons.IH [OF w c] Cons.prems(3) show ?case by simp
qed

lemma in_range_mid:
  "in_range t ss \<Longrightarrow> s \<in> set ss \<Longrightarrow> 0 \<le> midpoint_of s \<and> midpoint_of s \<le> t"
  by (auto simp: in_range_def list_all_iff midpoint_of_def)

lemma plan_chain:
  assumes "in_range t ss" "chronological ss" "0 < t"
  shows "chain 0 (spec_plan m t ss) t \<and> spec_plan m t ss \<noteq> []"
proof -
  have "ss \<noteq> [] \<Longrightarrow> 0 \<le> midpoint_of (hd ss)"
    using in_range_mid [OF assms(1), of "hd ss"] by simp
  then have "mids_from 0 ss" using mids_from_chrono [OF assms(1,2)] by blast
  then have c: "chain 0 (spec_commits m 0 ss) (spec_current m 0 ss)"
    by (rule chain_commits)
  show ?thesis
  proof (cases "spec_current m 0 ss < t")
    case True
    then have "chain (spec_current m 0 ss) [(spec_current m 0 ss, t)] t" by simp
    with c True show ?thesis by (simp add: spec_plan_def chain_append)
  next
    case False
    from current_cases [of m 0 ss] assms(3) False
    have in_mids: "spec_current m 0 ss \<in> midpoint_of ` set ss" and ne: "spec_commits m 0 ss \<noteq> []"
      by auto
    then have "spec_current m 0 ss \<le> t" using in_range_mid [OF assms(1)] by auto
    with False have "spec_current m 0 ss = t" by simp
    with c ne False show ?thesis by (simp add: spec_plan_def)
  qed
qed

lemma csp_nonempty:
  "ss \<noteq> [] \<Longrightarrow> calculate_split_points ss t mn mx = Some (spec_plan (min mn mx) t ss)"
  by (simp add: calculate_split_points_def walk_spec spec_plan_def Let_def)

lemma tile_loop_diverges_aux:
  assumes "tile_loop t mx cur segs = Some ws"
  shows "\<not> (mx \<le> 0 \<and> cur < t)"
proof (rule tile_loop.raw_induct
    [where P = "\<lambda>t mx cur segs ws. \<not> (mx \<le> 0 \<and> cur < t)", OF _ assms])
  fix tl :: "real \<Rightarrow> real \<Rightarrow> real \<Rightarrow> window list \<Rightarrow> window list option"
    and t mx cur :: real and segs ws :: "window list"
  assume IH: "\<And>t mx cur segs ws. tl t mx cur segs = Some ws \<Longrightarrow> \<not> (mx \<le> 0 \<and> cur < t)"
    and step: "(if cur < t then tl t mx (min (cur + mx) t) (segs @ [(cur, min (cur + mx) t)])
                else Some segs) = Some ws"
  show "\<not> (mx \<le> 0 \<and> cur < t)"
  proof
    assume a: "mx \<le> 0 \<and> cur < t"
    then have lt: "min (cur + mx) t < t" by simp
    from a step have "tl t mx (min (cur + mx) t) (segs @ [(cur, min (cur + mx) t)]) = Some ws"
      by simp
    from IH [OF this] a lt show False by simp
  qed
qed

lemma tile_loop_diverges: "mx \<le> 0 \<Longrightarrow> cur < t \<Longrightarrow> tile_loop t mx cur segs = None"
  using tile_loop_diverges_aux [of t mx cur segs] by (cases "tile_loop t mx cur segs") auto

lemma below_ceiling:
  fixes x :: real
  shows "k < nat \<lceil>x\<rceil> \<longleftrightarrow> real k < x"
  by (simp add: zless_nat_eq_int_zless less_ceiling_iff)

lemma tile_loop_tiles:
  assumes "0 < mx" "k \<le> nat \<lceil>t / mx\<rceil>"
  shows "tile_loop t mx (min (real k * mx) t) segs =
         Some (segs @ map (\<lambda>i. (real i * mx, min (real (Suc i) * mx) t)) [k ..< nat \<lceil>t / mx\<rceil>])"
  using assms(2)
proof (induction "nat \<lceil>t / mx\<rceil> - k" arbitrary: k segs)
  case 0
  then have k: "k = nat \<lceil>t / mx\<rceil>" by arith
  then have "\<not> real k < t / mx" using below_ceiling [of k "t / mx"] by simp
  then have "t \<le> real k * mx" using assms(1) by (simp add: field_simps)
  then have "min (real k * mx) t = t" by simp
  then show ?case using k by (subst tile_loop.simps) simp
next
  case (Suc d)
  then have lt: "k < nat \<lceil>t / mx\<rceil>" by simp
  then have "real k < t / mx" using below_ceiling [of k "t / mx"] by simp
  then have klt: "real k * mx < t" using assms(1) by (simp add: field_simps)
  then have cur: "min (real k * mx) t = real k * mx" by simp
  have nxt: "real k * mx + mx = real (Suc k) * mx" by (simp add: algebra_simps)
  have d: "d = nat \<lceil>t / mx\<rceil> - Suc k" using Suc.hyps(2) by simp
  have le: "Suc k \<le> nat \<lceil>t / mx\<rceil>" using lt by simp
  have "tile_loop t mx (min (real k * mx) t) segs =
        tile_loop t mx (min (real (Suc k) * mx) t)
          (segs @ [(real k * mx, min (real (Suc k) * mx) t)])"
    by (subst tile_loop.simps) (simp add: cur klt nxt)
  also have "\<dots> = Some ((segs @ [(real k * mx, min (real (Suc k) * mx) t)]) @
      map (\<lambda>i. (real i * mx, min (real (Suc i) * mx) t)) [Suc k ..< nat \<lceil>t / mx\<rceil>])"
    by (rule Suc.hyps(1) [OF d le])
  finally show ?case using lt by (simp add: upt_conv_Cons)
qed

lemma csp_empty:
  assumes "0 < mx"
  shows "calculate_split_points [] t mn mx = Some (spec_tiling t mx)"
proof (cases "0 < t")
  case True
  then have "min (real 0 * mx) t = 0" by simp
  with tile_loop_tiles [OF assms, of 0 t "[]"] show ?thesis
    by (simp add: calculate_split_points_def spec_tiling_def)
next
  case False
  then have "t / mx \<le> 0" using assms by (simp add: field_simps)
  then have "nat \<lceil>t / mx\<rceil> = 0" by (simp add: ceiling_le_zero)
  moreover have "tile_loop t mx 0 [] = Some []"
    using False by (subst tile_loop.simps) simp
  ultimately show ?thesis
    by (simp add: calculate_split_points_def spec_tiling_def)
qed

lemma tiling_chain_from:
  assumes "0 < mx" "k \<le> nat \<lceil>t / mx\<rceil>"
  shows "chain (min (real k * mx) t)
           (map (\<lambda>i. (real i * mx, min (real (Suc i) * mx) t)) [k ..< nat \<lceil>t / mx\<rceil>]) t"
  using assms(2)
proof (induction "nat \<lceil>t / mx\<rceil> - k" arbitrary: k)
  case 0
  then have k: "k = nat \<lceil>t / mx\<rceil>" by arith
  then have "\<not> real k < t / mx" using below_ceiling [of k "t / mx"] by simp
  then have "t \<le> real k * mx" using assms(1) by (simp add: field_simps)
  then show ?case using k by simp
next
  case (Suc d)
  then have lt: "k < nat \<lceil>t / mx\<rceil>" by simp
  then have "real k < t / mx" using below_ceiling [of k "t / mx"] by simp
  then have klt: "real k * mx < t" using assms(1) by (simp add: field_simps)
  have le1: "real k * mx \<le> real (Suc k) * mx" using assms(1) by (simp add: algebra_simps)
  have d: "d = nat \<lceil>t / mx\<rceil> - Suc k" using Suc.hyps(2) by simp
  have le: "Suc k \<le> nat \<lceil>t / mx\<rceil>" using lt by simp
  from Suc.hyps(1) [OF d le] klt le1 lt show ?case
    by (simp add: upt_conv_Cons)
qed

lemma tiling_chain:
  assumes "0 < mx" "0 < t"
  shows "chain 0 (spec_tiling t mx) t \<and> spec_tiling t mx \<noteq> []"
proof -
  have "0 < t / mx" using assms by simp
  then have pos: "0 < nat \<lceil>t / mx\<rceil>" by simp
  have "min (real 0 * mx) t = 0" using assms by simp
  with tiling_chain_from [OF assms(1), of 0 t] pos show ?thesis
    by (simp add: spec_tiling_def)
qed




lemma csp_empty_diverges:
  "mx \<le> 0 \<Longrightarrow> 0 < t \<Longrightarrow> calculate_split_points [] t mn mx = None"
  by (simp add: calculate_split_points_def tile_loop_diverges)

text \<open>
  Claim C1 (coverage), with the bound on \<open>max_len\<close> that the branch without
  silences needs: for intervals within \<open>[0, total_duration]\<close> in chronological
  order and \<open>total_duration > 0\<close>, and \<open>max_len > 0\<close> when the interval list
  is empty, the planner returns a window list; the list is not empty, its first
  window starts at 0, its last window ends at \<open>total_duration\<close>, the end of
  each window is the start of the next, no two windows overlap and no window
  is reversed.  The bound \<open>min_len \<le> max_len\<close> is not needed.
\<close>

theorem planner_coverage:
  assumes "in_range total_duration ss" "chronological ss" "0 < total_duration"
    and "ss = [] \<longrightarrow> 0 < mx"
  shows "\<exists>ws. calculate_split_points ss total_duration mn mx = Some ws \<and>
           ws \<noteq> [] \<and> fst (hd ws) = 0 \<and> snd (last ws) = total_duration \<and>
           contiguous ws \<and> no_overlap ws \<and> (\<forall>w \<in> set ws. fst w \<le> snd w)"
proof -
  have "\<exists>ws. calculate_split_points ss total_duration mn mx = Some ws \<and>
          chain 0 ws total_duration \<and> ws \<noteq> []"
  proof (cases "ss = []")
    case True
    with assms(4) have "0 < mx" by simp
    with True assms(3) show ?thesis by (simp add: csp_empty tiling_chain)
  next
    case False
    with assms(1-3) show ?thesis by (simp add: csp_nonempty plan_chain)
  qed
  then obtain ws where ws: "calculate_split_points ss total_duration mn mx = Some ws"
    and c: "chain 0 ws total_duration" and ne: "ws \<noteq> []" by blast
  have "\<forall>w \<in> set ws. fst w \<le> snd w" using chain_bounds [OF c] by blast
  with ws ne chain_hd_last [OF c ne] chain_contiguous [OF c] chain_no_overlap [OF c]
  show ?thesis by blast
qed

theorem planner_coverage_witness:
  "in_range 180 [silence_segment 40 42, silence_segment 100 101] \<and>
   chronological [silence_segment 40 42, silence_segment 100 101] \<and>
   (\<exists>ws. calculate_split_points [silence_segment 40 42, silence_segment 100 101] 180 30 120 = Some ws \<and>
      ws \<noteq> [] \<and> fst (hd ws) = 0 \<and> snd (last ws) = 180 \<and> contiguous ws \<and> no_overlap ws)"
proof -
  have h1: "in_range 180 [silence_segment 40 42, silence_segment 100 101]"
    by (simp add: in_range_def silence_segment_def)
  have h2: "chronological [silence_segment 40 42, silence_segment 100 101]"
    by (simp add: silence_segment_def)
  have h3: "(0::real) < 180" by simp
  have h4: "[silence_segment 40 42, silence_segment 100 101] = [] \<longrightarrow> (0::real) < 120" by simp
  from planner_coverage [OF h1 h2 h3 h4, of 30] h1 h2 show ?thesis by blast
qed

text \<open>With an empty interval list and \<open>max_len = 0\<close> the loop of the planner
  never ends: no window list is returned, although \<open>total_duration > 0\<close> and
  \<open>min_len \<le> max_len\<close>.\<close>

theorem planner_coverage_counterexample:
  "in_range 1 [] \<and> chronological [] \<and> (0::real) < 1 \<and> (-1::real) \<le> 0 \<and>
   calculate_split_points [] 1 (-1) 0 = None"
  by (simp add: in_range_def csp_empty_diverges)

text \<open>
  Claim C2 (the walk over a non-empty interval list), with the forced split
  written in: the planner's result is the specification's walk for the
  threshold \<open>min min_len max_len\<close>, that is, it commits
  \<open>[current_start, midpoint)\<close> exactly when \<open>midpoint - current_start\<close> reaches
  \<open>min_len\<close> or \<open>max_len\<close>, and then the remainder
  \<open>[current_start, total_duration)\<close> when \<open>current_start < total_duration\<close>;
  for \<open>min_len \<le> max_len\<close> the threshold is \<open>min_len\<close>.  For
  \<open>total_duration = 180\<close>, silences \<open>(40, 42)\<close> and \<open>(100, 101)\<close>,
  \<open>min_len = 30\<close> and \<open>max_len = 120\<close> the windows are
  \<open>[0, 41)\<close>, \<open>[41, 100.5)\<close>, \<open>[100.5, 180)\<close>.
\<close>

theorem planner_walk:
  "(ss \<noteq> [] \<longrightarrow>
      calculate_split_points ss total_duration mn mx = Some (spec_plan (min mn mx) total_duration ss)) \<and>
   (ss \<noteq> [] \<longrightarrow> mn \<le> mx \<longrightarrow>
      calculate_split_points ss total_duration mn mx = Some (spec_plan mn total_duration ss)) \<and>
   calculate_split_points [silence_segment 40 42, silence_segment 100 101] 180 30 120 =
     Some [(0, 41), (41, 201 / 2), (201 / 2, 180)]"
proof (intro conjI impI)
  assume "ss \<noteq> []"
  then show "calculate_split_points ss total_duration mn mx =
             Some (spec_plan (min mn mx) total_duration ss)"
    by (rule csp_nonempty)
next
  assume "ss \<noteq> []" "mn \<le> mx"
  then show "calculate_split_points ss total_duration mn mx = Some (spec_plan mn total_duration ss)"
    using csp_nonempty [of ss total_duration mn mx] by (simp add: min_def)
next
  show "calculate_split_points [silence_segment 40 42, silence_segment 100 101] 180 30 120 =
     Some [(0, 41), (41, 201 / 2), (201 / 2, 180)]"
    by (simp add: csp_nonempty spec_plan_def midpoint_of_def silence_segment_def)
qed

theorem planner_walk_witness:
  "[silence_segment 59 61] \<noteq> [] \<and> (30::real) \<le> 120 \<and>
   calculate_split_points [silence_segment 59 61] 200 30 120 = Some [(0, 60), (60, 200)]"
proof -
  have "spec_plan 30 200 [silence_segment 59 61] = [(0, 60), (60, 200)]"
    by (simp add: spec_plan_def midpoint_of_def silence_segment_def)
  with planner_walk [of "[silence_segment 59 61]" 200 30 120] show ?thesis by simp
qed

text \<open>For \<open>min_len = 100 > max_len = 50\<close> and a midpoint at 60 the planner
  commits \<open>[0, 60)\<close> although \<open>60 < min_len\<close>; the walk that commits exactly
  when \<open>min_len\<close> is reached gives the single window \<open>[0, 200)\<close>.\<close>

theorem planner_walk_counterexample:
  "calculate_split_points [silence_segment 59 61] 200 100 50 = Some [(0, 60), (60, 200)] \<and>
   spec_plan 100 200 [silence_segment 59 61] = [(0, 200)]"
  by (simp add: calculate_split_points_def walk_def split_step_def Let_def spec_plan_def
      midpoint_of_def silence_segment_def)







section \<open>Silence-ratio filter and index assignment: proofs\<close>

lemma process_windows_step:
  "process_windows pf thr idx acc (wp # rest) =
     (case measured pf wp of
        Inl e \<Rightarrow> Inl e
      | Inr r \<Rightarrow>
          if survives pf thr wp
          then process_windows pf thr (Suc idx) (acc @ [record_of idx (fst wp)]) rest
          else process_windows pf thr idx acc rest)"
  by (cases wp, cases "fst wp")
     (auto simp: measured_def survives_def record_of_def split: sum.splits)

lemma process_windows_Inr:
  "process_windows pf thr idx acc wps = Inr recs \<Longrightarrow>
   recs = acc @ number_from idx (map fst (filter (survives pf thr) wps))"
proof (induction wps arbitrary: idx acc)
  case Nil
  then show ?case by simp
next
  case (Cons wp rest)
  show ?case
  proof (cases "measured pf wp")
    case (Inl e)
    with Cons.prems show ?thesis by (simp add: process_windows_step)
  next
    case (Inr r)
    show ?thesis
    proof (cases "survives pf thr wp")
      case True
      with Cons.prems Inr
      have "process_windows pf thr (Suc idx) (acc @ [record_of idx (fst wp)]) rest = Inr recs"
        by (simp add: process_windows_step)
      from Cons.IH [OF this] True show ?thesis by simp
    next
      case False
      with Cons.prems Inr have "process_windows pf thr idx acc rest = Inr recs"
        by (simp add: process_windows_step)
      from Cons.IH [OF this] False show ?thesis by simp
    qed
  qed
qed

lemma process_windows_total:
  "(\<forall>wp \<in> set wps. \<not> isl (measured pf wp)) \<Longrightarrow>
   \<exists>recs. process_windows pf thr idx acc wps = Inr recs"
proof (induction wps arbitrary: idx acc)
  case Nil
  then show ?case by simp
next
  case (Cons wp rest)
  then obtain r where "measured pf wp = Inr r" by (cases "measured pf wp") auto
  with Cons show ?case by (simp add: process_windows_step)
qed

lemma process_windows_isl:
  "wp \<in> set wps \<Longrightarrow> isl (measured pf wp) \<Longrightarrow> isl (process_windows pf thr idx acc wps)"
proof (induction wps arbitrary: idx acc)
  case Nil
  then show ?case by simp
next
  case (Cons v rest)
  then show ?case
    by (cases "measured pf v") (auto simp: process_windows_step)
qed

lemma number_from_index: "map segment_index (number_from i ws) = [i ..< i + length ws]"
proof (induction ws arbitrary: i)
  case Nil
  then show ?case by simp
next
  case (Cons w ws)
  have "[i ..< i + length (w # ws)] = i # [Suc i ..< Suc i + length ws]"
    by (subst upt_rec) simp
  with Cons.IH [of "Suc i"] show ?case by (simp add: record_of_def)
qed

lemma number_from_bounds:
  "map (\<lambda>m. (start_time m, end_time m)) (number_from i ws) = ws"
  by (induction ws arbitrary: i) (auto simp: record_of_def)

lemma number_from_length: "length (number_from i ws) = length ws"
  by (induction ws arbitrary: i) auto

lemma number_from_nth:
  "k < length ws \<Longrightarrow> number_from i ws ! k = record_of (i + k) (ws ! k)"
proof (induction ws arbitrary: i k)
  case Nil
  then show ?case by simp
next
  case (Cons w ws)
  then show ?case by (cases k) auto
qed

lemmas string_eval =
  py_split_def leading_float_def first_token_def strip_def is_space_def newline_def

lemma process_windows_append:
  "process_windows pf thr idx acc (xs @ ys) =
     (case process_windows pf thr idx acc xs of
        Inl e \<Rightarrow> Inl e
      | Inr recs \<Rightarrow> process_windows pf thr (idx + length (filter (survives pf thr) xs)) recs ys)"
proof (induction xs arbitrary: idx acc)
  case Nil
  then show ?case by simp
next
  case (Cons wp xs)
  show ?case
  proof (cases "measured pf wp")
    case (Inl e)
    then show ?thesis by (simp add: process_windows_step)
  next
    case (Inr r)
    show ?thesis
    proof (cases "survives pf thr wp")
      case True
      with Inr Cons.IH [of "Suc idx" "acc @ [record_of idx (fst wp)]"] show ?thesis
        by (simp add: process_windows_step del: process_windows.simps split: sum.splits)
    next
      case False
      with Inr Cons.IH [of idx acc] show ?thesis
        by (simp add: process_windows_step del: process_windows.simps split: sum.splits)
    qed
  qed
qed

text \<open>
  Claim C4 (index density): whenever \<^verbatim>\<open>process_audio_file\<close> returns records,
  their \<open>segment_index\<close> values are \<open>1, \<dots>, k\<close> for \<open>k\<close> the number of windows
  that pass the silence-ratio filter and are extracted, their bounds are these
  windows in window order, and each is named after its index; a window whose
  extraction fails is left out, takes no index and does not stop the loop.  The
  function returns whenever every ratio measurement returns.
\<close>

theorem segment_index_dense:
  "(\<forall>recs. process_audio_file float_of thr split_points = Inr recs \<longrightarrow>
      map segment_index recs =
        [1 ..< Suc (length (filter (survives float_of thr) split_points))] \<and>
      map (\<lambda>m. (start_time m, end_time m)) recs =
        map fst (filter (survives float_of thr) split_points) \<and>
      (\<forall>m \<in> set recs. filename m = segment_wav (segment_index m))) \<and>
   ((\<forall>wp \<in> set split_points. \<not> isl (measured float_of wp)) \<longrightarrow>
      (\<exists>recs. process_audio_file float_of thr split_points = Inr recs))"
proof (intro conjI allI impI)
  fix recs
  assume "process_audio_file float_of thr split_points = Inr recs"
  then have recs: "recs = number_from 1 (map fst (filter (survives float_of thr) split_points))"
    using process_windows_Inr [of float_of thr 1 "[]" split_points recs]
    by (simp add: process_audio_file_def)
  show "map segment_index recs =
        [1 ..< Suc (length (filter (survives float_of thr) split_points))]"
    by (simp add: recs number_from_index)
  show "map (\<lambda>m. (start_time m, end_time m)) recs =
        map fst (filter (survives float_of thr) split_points)"
    by (simp add: recs number_from_bounds)
  have "\<forall>m \<in> set (number_from i ws). filename m = segment_wav (segment_index m)" for i ws
    by (induction ws arbitrary: i) (auto simp: record_of_def)
  then show "\<forall>m \<in> set recs. filename m = segment_wav (segment_index m)"
    by (simp add: recs)
next
  assume "\<forall>wp \<in> set split_points. \<not> isl (measured float_of wp)"
  then show "\<exists>recs. process_audio_file float_of thr split_points = Inr recs"
    unfolding process_audio_file_def by (rule process_windows_total)
qed

text \<open>Four windows: the second fails to extract, the third is 95 percent
  silence; the first and the fourth get the indices 1 and 2.\<close>

theorem segment_index_dense_witness:
  "list_all (\<lambda>wp. \<not> isl (measured float_table wp))
     [((0, 100), \<lparr>ratio_stderr = ''[silencedetect @ 0x1] silence_duration: 10'', split_ok = True\<rparr>),
      ((100, 200), \<lparr>ratio_stderr = ''[silencedetect @ 0x1] silence_duration: 10'', split_ok = False\<rparr>),
      ((200, 300), \<lparr>ratio_stderr = ''[silencedetect @ 0x1] silence_duration: 95'', split_ok = True\<rparr>),
      ((300, 400::real), \<lparr>ratio_stderr = [], split_ok = True\<rparr>)] \<and>
   (\<exists>recs. process_audio_file float_table (9 / 10)
       [((0, 100), \<lparr>ratio_stderr = ''[silencedetect @ 0x1] silence_duration: 10'', split_ok = True\<rparr>),
        ((100, 200), \<lparr>ratio_stderr = ''[silencedetect @ 0x1] silence_duration: 10'', split_ok = False\<rparr>),
        ((200, 300), \<lparr>ratio_stderr = ''[silencedetect @ 0x1] silence_duration: 95'', split_ok = True\<rparr>),
        ((300, 400), \<lparr>ratio_stderr = [], split_ok = True\<rparr>)] = Inr recs \<and>
      map segment_index recs = [1, 2] \<and>
      map (\<lambda>m. (start_time m, end_time m)) recs = [(0, 100), (300, 400)])"
proof -
  let ?ws = "[((0, 100), \<lparr>ratio_stderr = ''[silencedetect @ 0x1] silence_duration: 10'', split_ok = True\<rparr>),
        ((100, 200), \<lparr>ratio_stderr = ''[silencedetect @ 0x1] silence_duration: 10'', split_ok = False\<rparr>),
        ((200, 300), \<lparr>ratio_stderr = ''[silencedetect @ 0x1] silence_duration: 95'', split_ok = True\<rparr>),
        ((300, 400::real), \<lparr>ratio_stderr = [], split_ok = True\<rparr>)]"
  have h: "\<forall>wp \<in> set ?ws. \<not> isl (measured float_table wp)"
    by (simp add: measured_def calculate_segment_silence_ratio_def string_eval float_table_def)
  have f: "filter (survives float_table (9 / 10)) ?ws =
        [((0, 100), \<lparr>ratio_stderr = ''[silencedetect @ 0x1] silence_duration: 10'', split_ok = True\<rparr>),
         ((300, 400), \<lparr>ratio_stderr = [], split_ok = True\<rparr>)]"
    by (simp add: survives_def measured_def calculate_segment_silence_ratio_def string_eval
        float_table_def)
  have len: "length (filter (survives float_table (9 / 10)) ?ws) = 2"
    by (simp only: f) simp
  from segment_index_dense [of float_table "9 / 10" ?ws] h
  obtain recs where r: "process_audio_file float_table (9 / 10) ?ws = Inr recs"
    by blast
  from segment_index_dense [of float_table "9 / 10" ?ws] r
  have a: "map segment_index recs =
        [1 ..< Suc (length (filter (survives float_table (9 / 10)) ?ws))]"
    and b: "map (\<lambda>m. (start_time m, end_time m)) recs =
        map fst (filter (survives float_table (9 / 10)) ?ws)"
    by blast+
  have "[1 ..< Suc 2] = [1, 2::nat]" by (simp add: upt_rec)
  with a len have a': "map segment_index recs = [1, 2]" by (simp only:)
  from b have b': "map (\<lambda>m. (start_time m, end_time m)) recs = [(0, 100), (300, 400)]"
    by (simp only: f) simp
  from r a' b' have "\<exists>recs. process_audio_file float_table (9 / 10) ?ws = Inr recs \<and>
      map segment_index recs = [1, 2] \<and>
      map (\<lambda>m. (start_time m, end_time m)) recs = [(0, 100), (300, 400)]"
    by (intro exI [of _ recs] conjI)
  moreover from h have "list_all (\<lambda>wp. \<not> isl (measured float_table wp)) ?ws"
    by (simp only: list_all_iff)
  ultimately show ?thesis by (intro conjI)
qed

text \<open>
  Claim C7 (silence-ratio filter): a window measured at ratio \<open>r\<close> is dropped
  when \<open>r > threshold\<close>: the result is that of the window list without it, so
  it gets no record and no index.  When \<open>r \<le> threshold\<close>, also when
  \<open>r = threshold\<close>, and the extraction succeeds, the window gets the record
  with the next index.
\<close>

theorem silence_ratio_filter:
  assumes "measured float_of wp = Inr r"
  shows "(r > thr \<longrightarrow>
            process_audio_file float_of thr (pre @ wp # post) =
            process_audio_file float_of thr (pre @ post)) \<and>
         (\<not> r > thr \<longrightarrow> split_ok (snd wp) \<longrightarrow>
            (\<forall>recs. process_audio_file float_of thr (pre @ wp # post) = Inr recs \<longrightarrow>
               length (filter (survives float_of thr) pre) < length recs \<and>
               recs ! length (filter (survives float_of thr) pre) =
                 record_of (Suc (length (filter (survives float_of thr) pre))) (fst wp)))"
proof (intro conjI impI allI)
  assume "r > thr"
  then have "\<not> survives float_of thr wp" using assms by (simp add: survives_def)
  then show "process_audio_file float_of thr (pre @ wp # post) =
             process_audio_file float_of thr (pre @ post)"
    using assms
    by (simp add: process_audio_file_def process_windows_append process_windows_step
        del: process_windows.simps split: sum.splits)
next
  fix recs
  let ?k = "length (filter (survives float_of thr) pre)"
  let ?ws = "map fst (filter (survives float_of thr) (pre @ wp # post))"
  assume "\<not> r > thr" "split_ok (snd wp)"
  then have s: "survives float_of thr wp" using assms by (simp add: survives_def)
  assume "process_audio_file float_of thr (pre @ wp # post) = Inr recs"
  then have recs: "recs = number_from 1 ?ws"
    using process_windows_Inr [of float_of thr 1 "[]" "pre @ wp # post" recs]
    by (simp add: process_audio_file_def)
  have k: "?k < length ?ws" using s by simp
  have nth: "?ws ! ?k = fst wp"
    using s nth_append_length [of "map fst (filter (survives float_of thr) pre)" "fst wp"]
    by simp
  show "?k < length recs" using k by (simp only: recs number_from_length)
  show "recs ! ?k = record_of (Suc ?k) (fst wp)"
    using number_from_nth [OF k, of 1] nth by (simp only: recs) simp
qed

text \<open>Threshold 0.9: a window measured at 0.95 is dropped, one measured at 0.9 is
  kept.\<close>

theorem silence_ratio_filter_witness:
  "measured float_table ((0, 100), \<lparr>ratio_stderr = ''[silencedetect @ 0x1] silence_end: 97 | silence_duration: 95'', split_ok = True\<rparr>) = Inr (95 / 100) \<and>
   (95 / 100 :: real) > 9 / 10 \<and>
   process_audio_file float_table (9 / 10)
     [((0, 100), \<lparr>ratio_stderr = ''[silencedetect @ 0x1] silence_end: 97 | silence_duration: 95'', split_ok = True\<rparr>)] = Inr [] \<and>
   measured float_table ((0, 100), \<lparr>ratio_stderr = ''[silencedetect @ 0x1] silence_end: 97 | silence_duration: 90'', split_ok = True\<rparr>) = Inr (9 / 10) \<and>
   process_audio_file float_table (9 / 10)
     [((0, 100), \<lparr>ratio_stderr = ''[silencedetect @ 0x1] silence_end: 97 | silence_duration: 90'', split_ok = True\<rparr>)] =
     Inr [record_of 1 (0, 100)]"
proof -
  let ?w95 = "((0::real, 100::real), \<lparr>ratio_stderr = ''[silencedetect @ 0x1] silence_end: 97 | silence_duration: 95'', split_ok = True\<rparr>)"
  let ?w90 = "((0::real, 100::real), \<lparr>ratio_stderr = ''[silencedetect @ 0x1] silence_end: 97 | silence_duration: 90'', split_ok = True\<rparr>)"
  have m95: "measured float_table ?w95 = Inr (95 / 100)"
    by (simp add: measured_def calculate_segment_silence_ratio_def string_eval float_table_def)
  have m90: "measured float_table ?w90 = Inr (9 / 10)"
    by (simp add: measured_def calculate_segment_silence_ratio_def string_eval float_table_def)
  have gt: "(95 / 100 :: real) > 9 / 10" by simp
  have "process_audio_file float_table (9 / 10) ([] @ ?w95 # []) =
        process_audio_file float_table (9 / 10) ([] @ [])"
    using silence_ratio_filter [OF m95, of "9 / 10" "[]" "[]"] gt by blast
  then have d: "process_audio_file float_table (9 / 10) [?w95] = Inr []"
    by (simp add: process_audio_file_def)
  have p90: "process_audio_file float_table (9 / 10) [?w90] = Inr [record_of 1 (0, 100)]"
    by (simp add: process_audio_file_def calculate_segment_silence_ratio_def string_eval
        float_table_def record_of_def)
  have "\<not> (9 / 10 :: real) > 9 / 10" by simp
  with silence_ratio_filter [OF m90, of "9 / 10" "[]" "[]"] p90
  have "[record_of 1 (0, 100)] ! 0 = record_of (Suc 0) (0, 100)" by simp
  from m95 gt d m90 p90 show ?thesis by (intro conjI)
qed

section \<open>Silence event parser: proofs\<close>


lemma leading_float_ValueError:
  "first_token s = Inr tok \<Longrightarrow> float_of tok = None \<Longrightarrow> leading_float float_of s = Inl ValueError"
  by (simp add: leading_float_def)

lemma leading_float_IndexError:
  "first_token s = Inl e \<Longrightarrow> leading_float float_of s = Inl e"
  by (simp add: leading_float_def)




section \<open>Transcript reassembly: proofs\<close>

lemma merge_ledger_eq:
  "merge_ledger fmt files segs (parts, msgs) =
     (parts @ concat (map (block_of fmt files) (filter (has_text files) segs)),
      msgs @ concat (map (warning_of files) segs))"
proof (induction segs arbitrary: parts msgs)
  case Nil
  then show ?case by simp
next
  case (Cons seg segs)
  show ?case
  proof (cases "files (transcript_name seg)")
    case Absent
    with Cons.IH show ?thesis by (simp add: has_text_def warning_of_def)
  next
    case Unreadable
    with Cons.IH show ?thesis by (simp add: has_text_def warning_of_def)
  next
    case (Text t)
    with Cons.IH show ?thesis
      by (simp add: has_text_def warning_of_def block_of_def Let_def)
  qed
qed

lemma uses_ledger_map_of:
  "map_of md ''segments'' = Some v \<Longrightarrow> uses_ledger (Some md)"
  by (auto simp: uses_ledger_def dest: map_of_SomeD intro: rev_image_eqI)

lemma block_of_nonempty: "has_text files seg \<Longrightarrow> block_of fmt files seg \<noteq> []"
  by (auto simp: has_text_def block_of_def split: file_state.splits)

lemma concat_blocks_empty:
  "concat (map (block_of fmt files) (filter (has_text files) segs)) = [] \<longleftrightarrow>
   filter (has_text files) segs = []"
  by (induction segs) (auto simp: block_of_nonempty)

lemma merge_transcripts_ledger:
  assumes "map_of md ''segments'' = Some (JSegments segs)"
  shows "merge_transcripts fmt (Some md) files listing write_ok =
     Inr (write_merged write_ok
       (concat (map (block_of fmt files) (filter (has_text files) segs)),
        FoundSegments (length segs) # concat (map (warning_of files) segs)))"
  using assms uses_ledger_map_of [OF assms]
  by (simp add: merge_transcripts_def merge_ledger_eq)

text \<open>
  Claim C3 (ledger-driven reassembly), with the write of the merged file taken
  into account: when the ledger has a \<^verbatim>\<open>segments\<close> array, the merge collects one
  block (header, trimmed text, blank line) per record whose transcript file is
  there, readable and not empty after trimming, in the order of the ledger and
  whatever the directory listing is; a record whose transcript is missing adds
  a warning and the loop goes on; the function returns success exactly when at
  least one block was collected and the merged file could be written.
\<close>

theorem ledger_driven_merge:
  assumes "map_of md ''segments'' = Some (JSegments segs)"
  shows "\<exists>r. merge_transcripts fmt (Some md) files listing write_ok = Inr r \<and>
           merged_parts r = concat (map (block_of fmt files) (filter (has_text files) segs)) \<and>
           (\<forall>seg \<in> set (filter (has_text files) segs).
              \<exists>t. files (transcript_name seg) = Text t \<and>
                  block_of fmt files seg = [header fmt seg, strip t, []]) \<and>
           butlast (messages r) =
             FoundSegments (length segs) # concat (map (warning_of files) segs) \<and>
           (returned r \<longleftrightarrow> filter (has_text files) segs \<noteq> [] \<and> write_ok) \<and>
           (\<forall>listing'. merge_transcripts fmt (Some md) files listing' write_ok = Inr r)"
proof -
  let ?parts = "concat (map (block_of fmt files) (filter (has_text files) segs))"
  let ?msgs = "FoundSegments (length segs) # concat (map (warning_of files) segs)"
  let ?r = "write_merged write_ok (?parts, ?msgs)"
  have eq: "merge_transcripts fmt (Some md) files l write_ok = Inr ?r" for l
    by (rule merge_transcripts_ledger [OF assms])
  have p: "merged_parts ?r = ?parts" by (simp add: write_merged_def Let_def)
  have b: "\<forall>seg \<in> set (filter (has_text files) segs).
              \<exists>t. files (transcript_name seg) = Text t \<and>
                  block_of fmt files seg = [header fmt seg, strip t, []]"
    by (auto simp: has_text_def block_of_def split: file_state.splits)
  have m: "butlast (messages ?r) = ?msgs"
    by (simp add: write_merged_def Let_def butlast_append)
  have r: "returned ?r \<longleftrightarrow> filter (has_text files) segs \<noteq> [] \<and> write_ok"
    using concat_blocks_empty [of fmt files segs]
    by (simp add: write_merged_def Let_def)
  from eq p b m r show ?thesis by blast
qed

lemmas merge_eval =
  transcript_name_def stem_def rfind_def py_split_def strip_def is_space_def header_def
  fmt_table_def two_transcripts_def write_merged_def newline_def

theorem ledger_driven_merge_witness:
  "map_of [(''source_file'', JString ''m.wav''), (''total_segments'', JNumber 3),
           (''segments'', JSegments
              [\<lparr>le_filename = ''segment_001.wav'', le_start_time = Some 0, le_end_time = Some 41\<rparr>,
               \<lparr>le_filename = ''segment_002.wav'', le_start_time = Some 41, le_end_time = Some (201 / 2)\<rparr>,
               \<lparr>le_filename = ''segment_003.wav'', le_start_time = Some (201 / 2), le_end_time = None\<rparr>])]
     ''segments'' =
     Some (JSegments
              [\<lparr>le_filename = ''segment_001.wav'', le_start_time = Some 0, le_end_time = Some 41\<rparr>,
               \<lparr>le_filename = ''segment_002.wav'', le_start_time = Some 41, le_end_time = Some (201 / 2)\<rparr>,
               \<lparr>le_filename = ''segment_003.wav'', le_start_time = Some (201 / 2), le_end_time = None\<rparr>]) \<and>
   (\<exists>r. merge_transcripts fmt_table
        (Some [(''source_file'', JString ''m.wav''), (''total_segments'', JNumber 3),
           (''segments'', JSegments
              [\<lparr>le_filename = ''segment_001.wav'', le_start_time = Some 0, le_end_time = Some 41\<rparr>,
               \<lparr>le_filename = ''segment_002.wav'', le_start_time = Some 41, le_end_time = Some (201 / 2)\<rparr>,
               \<lparr>le_filename = ''segment_003.wav'', le_start_time = Some (201 / 2), le_end_time = None\<rparr>])])
        two_transcripts [''segment_003.txt'', ''segment_001.txt''] True = Inr r \<and>
      merged_parts r =
        [''=== segment_001.wav (0.0s - 41.0s) ==='', ''hello'', [],
         ''=== segment_003.wav (100.5s - 0.0s) ==='', ''world'', []] \<and>
      butlast (messages r) = [FoundSegments 3, TranscriptNotFound ''segment_002.txt''] \<and>
      returned r)"
proof -
  let ?segs = "[\<lparr>le_filename = ''segment_001.wav'', le_start_time = Some 0, le_end_time = Some 41\<rparr>,
               \<lparr>le_filename = ''segment_002.wav'', le_start_time = Some 41, le_end_time = Some (201 / 2)\<rparr>,
               \<lparr>le_filename = ''segment_003.wav'', le_start_time = Some (201 / 2), le_end_time = None\<rparr>]"
  let ?md = "[(''source_file'', JString ''m.wav''), (''total_segments'', JNumber 3),
           (''segments'', JSegments ?segs)]"
  have h: "map_of ?md ''segments'' = Some (JSegments ?segs)" by simp
  have f: "filter (has_text two_transcripts) ?segs =
      [\<lparr>le_filename = ''segment_001.wav'', le_start_time = Some 0, le_end_time = Some 41\<rparr>,
       \<lparr>le_filename = ''segment_003.wav'', le_start_time = Some (201 / 2), le_end_time = None\<rparr>]"
    by (simp add: has_text_def merge_eval)
  have p: "concat (map (block_of fmt_table two_transcripts) (filter (has_text two_transcripts) ?segs)) =
        [''=== segment_001.wav (0.0s - 41.0s) ==='', ''hello'', [],
         ''=== segment_003.wav (100.5s - 0.0s) ==='', ''world'', []]"
    by (simp only: f) (simp add: block_of_def merge_eval)
  have w: "FoundSegments (length ?segs) # concat (map (warning_of two_transcripts) ?segs) =
      [FoundSegments 3, TranscriptNotFound ''segment_002.txt'']"
    by (simp add: warning_of_def merge_eval)
  have ne: "filter (has_text two_transcripts) ?segs \<noteq> [] \<and> True" by (simp only: f) simp
  from ledger_driven_merge [OF h, of fmt_table two_transcripts
      "[''segment_003.txt'', ''segment_001.txt'']" True]
  obtain r where
    "merge_transcripts fmt_table (Some ?md) two_transcripts
       [''segment_003.txt'', ''segment_001.txt''] True = Inr r"
    "merged_parts r =
       concat (map (block_of fmt_table two_transcripts) (filter (has_text two_transcripts) ?segs))"
    "butlast (messages r) =
       FoundSegments (length ?segs) # concat (map (warning_of two_transcripts) ?segs)"
    "returned r \<longleftrightarrow> filter (has_text two_transcripts) ?segs \<noteq> [] \<and> True"
    by blast
  with p w ne have "\<exists>r. merge_transcripts fmt_table (Some ?md) two_transcripts
        [''segment_003.txt'', ''segment_001.txt''] True = Inr r \<and>
      merged_parts r =
        [''=== segment_001.wav (0.0s - 41.0s) ==='', ''hello'', [],
         ''=== segment_003.wav (100.5s - 0.0s) ==='', ''world'', []] \<and>
      butlast (messages r) = [FoundSegments 3, TranscriptNotFound ''segment_002.txt''] \<and>
      returned r"
    by (intro exI [of _ r]) (simp only: simp_thms)
  with h show ?thesis by (intro conjI)
qed

text \<open>One block is collected, writing the merged file fails: the function
  returns failure.\<close>

theorem ledger_driven_merge_counterexample:
  "merge_transcripts fmt_table
     (Some [(''segments'', JSegments
        [\<lparr>le_filename = ''segment_001.wav'', le_start_time = Some 0, le_end_time = Some 41\<rparr>])])
     two_transcripts [''segment_001.txt''] False =
   Inr \<lparr>returned = False,
        merged_parts = [''=== segment_001.wav (0.0s - 41.0s) ==='', ''hello'', []],
        written = None, messages = [FoundSegments 1, CouldNotWrite]\<rparr>"
  by (simp add: merge_transcripts_def uses_ledger_def merge_eval Let_def)

lemma merge_fallback_msgs:
  "set msgs \<subseteq> set (snd (merge_fallback files names (parts, msgs)))"
proof (induction names arbitrary: parts msgs)
  case Nil
  then show ?case by simp
next
  case (Cons n names)
  show ?case
  proof (cases "files n")
    case Absent
    with Cons.IH [where parts = parts and msgs = "msgs @ [CouldNotRead n]"] show ?thesis by auto
  next
    case Unreadable
    with Cons.IH [where parts = parts and msgs = "msgs @ [CouldNotRead n]"] show ?thesis by auto
  next
    case (Text t)
    with Cons.IH [where parts = parts and msgs = msgs]
      Cons.IH [where parts = "parts @ [''=== '' @ n @ '' ==='', strip t, []]" and msgs = msgs]
    show ?thesis by (auto simp: Let_def)
  qed
qed

lemma write_merged_msgs_upper:
  "set (messages (write_merged write_ok (parts, msgs))) \<subseteq> set msgs \<union> {Saved, CouldNotWrite, NoContent}"
  by (auto simp: write_merged_def Let_def)

lemma write_merged_msgs_lower:
  "set (snd st) \<subseteq> set (messages (write_merged write_ok st))"
  by (auto simp: write_merged_def Let_def)

lemma warning_of_no_files: "FoundFiles n \<notin> set (concat (map (warning_of files) segs))"
  by (induction segs) (auto simp: warning_of_def split: file_state.splits)

text \<open>
  Claim C10 (empty ledger): a ledger whose \<^verbatim>\<open>segments\<close> array is empty takes
  the ledger path, collects nothing and returns failure, whatever transcripts
  the directory holds; the fallback is taken exactly when the ledger was not
  loaded or has no \<^verbatim>\<open>segments\<close> key, and a run reports the number of
  transcript files found exactly when it took the fallback.
\<close>

theorem empty_ledger_primary:
  "(map_of md ''segments'' = Some (JSegments []) \<longrightarrow>
      uses_ledger (Some md) \<and>
      merge_transcripts fmt (Some md) files listing write_ok =
        Inr \<lparr>returned = False, merged_parts = [], written = None,
             messages = [FoundSegments 0, NoContent]\<rparr>) \<and>
   (\<not> uses_ledger metadata \<longleftrightarrow>
      metadata = None \<or> (\<exists>md. metadata = Some md \<and> ''segments'' \<notin> set (map fst md))) \<and>
   (\<forall>r. merge_transcripts fmt metadata files listing write_ok = Inr r \<longrightarrow>
      ((\<exists>n. FoundFiles n \<in> set (messages r)) \<longleftrightarrow> \<not> uses_ledger metadata))"
proof (intro conjI impI allI)
  assume a: "map_of md ''segments'' = Some (JSegments [])"
  then show "uses_ledger (Some md)" by (rule uses_ledger_map_of)
  from a show "merge_transcripts fmt (Some md) files listing write_ok =
        Inr \<lparr>returned = False, merged_parts = [], written = None,
             messages = [FoundSegments 0, NoContent]\<rparr>"
    by (simp add: merge_transcripts_ledger write_merged_def)
next
  show "\<not> uses_ledger metadata \<longleftrightarrow>
      metadata = None \<or> (\<exists>md. metadata = Some md \<and> ''segments'' \<notin> set (map fst md))"
    by (cases metadata) (auto simp: uses_ledger_def)
next
  fix r
  assume r: "merge_transcripts fmt metadata files listing write_ok = Inr r"
  show "(\<exists>n. FoundFiles n \<in> set (messages r)) \<longleftrightarrow> \<not> uses_ledger metadata"
  proof (cases "uses_ledger metadata")
    case True
    then obtain md where md: "metadata = Some md" by (cases metadata) (auto simp: uses_ledger_def)
    from r True md have cases: "(\<exists>segs. map_of md ''segments'' = Some (JSegments segs)) \<or>
        map_of md ''segments'' = Some (JString [])"
      by (auto simp: merge_transcripts_def split: option.splits jvalue.splits if_splits)
    have "FoundFiles n \<notin> set (messages r)" for n
    proof -
      from cases show ?thesis
      proof
        assume "\<exists>segs. map_of md ''segments'' = Some (JSegments segs)"
        then obtain segs where s: "map_of md ''segments'' = Some (JSegments segs)" ..
        from r md have "r = write_merged write_ok
           (concat (map (block_of fmt files) (filter (has_text files) segs)),
            FoundSegments (length segs) # concat (map (warning_of files) segs))"
          by (simp add: merge_transcripts_ledger [OF s])
        then show ?thesis
          using write_merged_msgs_upper [of write_ok
              "concat (map (block_of fmt files) (filter (has_text files) segs))"
              "FoundSegments (length segs) # concat (map (warning_of files) segs)"]
            warning_of_no_files [of n files segs]
          by auto
      next
        assume "map_of md ''segments'' = Some (JString [])"
        with r md True have "r = write_merged write_ok ([], [FoundSegments 0])"
          by (simp add: merge_transcripts_def)
        then show ?thesis by (simp add: write_merged_def)
      qed
    qed
    with True show ?thesis by simp
  next
    case False
    let ?msgs = "(if metadata = None then [CouldNotLoadMetadata] else []) @
                 [FoundFiles (length (fallback_files listing))]"
    from r False have "r = write_merged write_ok
        (merge_fallback files (fallback_files listing) ([], ?msgs))"
      by (simp add: merge_transcripts_def Let_def)
    moreover have "FoundFiles (length (fallback_files listing)) \<in> set ?msgs" by simp
    ultimately have "FoundFiles (length (fallback_files listing)) \<in> set (messages r)"
      using merge_fallback_msgs [of ?msgs files "fallback_files listing" "[]"]
        write_merged_msgs_lower [of "merge_fallback files (fallback_files listing) ([], ?msgs)"
          write_ok]
      by auto
    with False show ?thesis by blast
  qed
qed

theorem empty_ledger_primary_witness:
  "map_of [(''source_file'', JString ''m.wav''), (''total_segments'', JNumber 0),
           (''segments'', JSegments [])] ''segments'' = Some (JSegments []) \<and>
   uses_ledger (Some [(''source_file'', JString ''m.wav''), (''total_segments'', JNumber 0),
           (''segments'', JSegments [])]) \<and>
   merge_transcripts fmt_table
     (Some [(''source_file'', JString ''m.wav''), (''total_segments'', JNumber 0),
           (''segments'', JSegments [])])
     two_transcripts [''segment_003.txt'', ''segment_001.txt''] True =
     Inr \<lparr>returned = False, merged_parts = [], written = None,
          messages = [FoundSegments 0, NoContent]\<rparr> \<and>
   (\<exists>r. merge_transcripts fmt_table None two_transcripts
          [''segment_003.txt'', ''segment_001.txt''] True = Inr r \<and>
        FoundFiles 2 \<in> set (messages r) \<and> returned r)"
proof -
  let ?md = "[(''source_file'', JString ''m.wav''), (''total_segments'', JNumber 0),
           (''segments'', JSegments [])]"
  have h: "map_of ?md ''segments'' = Some (JSegments [])" by simp
  from empty_ledger_primary [of ?md fmt_table two_transcripts
      "[''segment_003.txt'', ''segment_001.txt'']" True] h
  have a: "uses_ledger (Some ?md)"
    and b: "merge_transcripts fmt_table (Some ?md) two_transcripts
      [''segment_003.txt'', ''segment_001.txt''] True =
      Inr \<lparr>returned = False, merged_parts = [], written = None,
           messages = [FoundSegments 0, NoContent]\<rparr>"
    by blast+
  have "merge_transcripts fmt_table None two_transcripts
          [''segment_003.txt'', ''segment_001.txt''] True =
        Inr \<lparr>returned = True,
             merged_parts = [''=== segment_001.txt ==='', ''hello'', [],
                             ''=== segment_003.txt ==='', ''world'', []],
             written = Some (join_lines [''=== segment_001.txt ==='', ''hello'', [],
                             ''=== segment_003.txt ==='', ''world'', []]),
             messages = [CouldNotLoadMetadata, FoundFiles 2, Saved]\<rparr>"
    by (simp add: merge_transcripts_def uses_ledger_def fallback_files_def glob_segment_txt_def
        suffix_to_prefix merge_eval Let_def del: join_lines.simps)
  then have c: "\<exists>r. merge_transcripts fmt_table None two_transcripts
          [''segment_003.txt'', ''segment_001.txt''] True = Inr r \<and>
        FoundFiles 2 \<in> set (messages r) \<and> returned r"
    by simp
  from h a b c show ?thesis by (intro conjI)
qed

section \<open>Fallback order: proofs\<close>

lemma digit_cases:
  "d < 10 \<Longrightarrow> d = 0 \<or> d = 1 \<or> d = 2 \<or> d = 3 \<or> d = 4 \<or> d = 5 \<or> d = 6 \<or> d = 7 \<or> d = 8 \<or> d = (9::nat)"
  by arith

lemma of_char_digit: "d < 10 \<Longrightarrow> of_char (digit_char d) = 48 + d"
  using digit_cases [of d] by (auto simp: digit_char_def)

lemma digit_char_less:
  "a < 10 \<Longrightarrow> b < 10 \<Longrightarrow> digit_char a < digit_char b \<longleftrightarrow> a < b"
  by (simp add: less_char_def of_char_digit)

lemma digit_char_eq:
  "a < 10 \<Longrightarrow> b < 10 \<Longrightarrow> digit_char a = digit_char b \<longleftrightarrow> a = b"
  by (metis of_char_digit add_left_cancel)

lemma digit_char_not_sep:
  "d < 10 \<Longrightarrow> digit_char d \<noteq> CHR ''/'' \<and> digit_char d \<noteq> CHR ''.''"
  using digit_cases [of d] by (auto simp: digit_char_def)

lemma digits_of_small:
  "n < 10 \<Longrightarrow> digits_of n = [digit_char n]"
  "10 \<le> n \<Longrightarrow> n < 100 \<Longrightarrow> digits_of n = [digit_char (n div 10), digit_char (n mod 10)]"
  "100 \<le> n \<Longrightarrow> n < 1000 \<Longrightarrow>
     digits_of n = [digit_char (n div 100), digit_char (n div 10 mod 10), digit_char (n mod 10)]"
proof -
  show one: "digits_of n = [digit_char n]" if "n < 10" for n
    using that by (subst digits_of.simps) simp
  show two: "digits_of n = [digit_char (n div 10), digit_char (n mod 10)]"
    if "10 \<le> n" "n < 100" for n
  proof -
    from that have "n div 10 < 10" by simp
    with that one [of "n div 10"] show ?thesis by (subst digits_of.simps) simp
  qed
  show "digits_of n = [digit_char (n div 100), digit_char (n div 10 mod 10), digit_char (n mod 10)]"
    if "100 \<le> n" "n < 1000"
  proof -
    from that have "10 \<le> n div 10" "n div 10 < 100" by simp_all
    from two [OF this] that show ?thesis
      by (subst digits_of.simps) (simp add: div_mult2_eq [symmetric])
  qed
qed

lemma fmt_03d_three:
  assumes "n < 1000"
  shows "fmt_03d n = [digit_char (n div 100), digit_char (n div 10 mod 10), digit_char (n mod 10)]"
proof -
  consider "n < 10" | "10 \<le> n" "n < 100" | "100 \<le> n" using assms by linarith
  then show ?thesis
  proof cases
    case 1
    then show ?thesis by (simp add: fmt_03d_def digits_of_small(1) digit_char_def numeral_2_eq_2)
  next
    case 2
    then have "n div 100 = 0" by simp
    with 2 show ?thesis by (simp add: fmt_03d_def digits_of_small(2) digit_char_def)
  next
    case 3
    with assms show ?thesis by (simp add: fmt_03d_def digits_of_small(3))
  qed
qed

lemma decimal_split: "(m::nat) = 100 * (m div 100) + 10 * (m div 10 mod 10) + m mod 10"
proof -
  have "m = 10 * (m div 10) + m mod 10" by simp
  moreover have "m div 10 = 10 * (m div 10 div 10) + m div 10 mod 10" by simp
  moreover have "m div 10 div 10 = m div 100" by (simp add: div_mult2_eq [symmetric])
  ultimately show ?thesis by linarith
qed

lemma decimal_lex:
  assumes "(m::nat) < n"
  shows "m div 100 < n div 100 \<or>
        m div 100 = n div 100 \<and>
          (m div 10 mod 10 < n div 10 mod 10 \<or>
           m div 10 mod 10 = n div 10 mod 10 \<and> m mod 10 < n mod 10)"
proof -
  have b: "m div 10 mod 10 < 10" "m mod 10 < 10" "n div 10 mod 10 < 10" "n mod 10 < 10"
    by simp_all
  from assms decimal_split [of m] decimal_split [of n] b show ?thesis by linarith
qed

lemma three_digits_less:
  assumes "a1 < 10" "a2 < 10" "a3 < 10" "b1 < 10" "b2 < 10" "b3 < 10"
    and "a1 < b1 \<or> a1 = b1 \<and> (a2 < b2 \<or> a2 = b2 \<and> a3 < b3)"
  shows "pre @ [digit_char a1, digit_char a2, digit_char a3] @ post <
         pre @ [digit_char b1, digit_char b2, digit_char b3] @ post"
proof -
  have "[digit_char a1, digit_char a2, digit_char a3] @ post <
        [digit_char b1, digit_char b2, digit_char b3] @ post"
    using assms by (auto simp: digit_char_less digit_char_eq)
  then show ?thesis by (induction pre) simp_all
qed

lemma segment_txt_less:
  assumes "m < n" "n < 1000"
  shows "segment_txt m < segment_txt n"
proof -
  from assms have m: "m < 1000" by simp
  have d: "m div 100 < 10" "m div 10 mod 10 < 10" "m mod 10 < 10"
    "n div 100 < 10" "n div 10 mod 10 < 10" "n mod 10 < 10"
    using assms by simp_all
  show ?thesis
    unfolding segment_txt_def fmt_03d_three [OF m] fmt_03d_three [OF assms(2)]
    by (rule three_digits_less [OF d decimal_lex [OF assms(1)]])
qed

lemma sort_map_strict_mono:
  fixes f :: "'a::linorder \<Rightarrow> 'b::linorder"
  assumes "\<And>x y. x \<in> set xs \<Longrightarrow> y \<in> set xs \<Longrightarrow> x < y \<Longrightarrow> f x < f y"
  shows "sort (map f xs) = map f (sort xs)"
proof (rule properties_for_sort)
  show "mset (map f (sort xs)) = mset (map f xs)" by simp
  have "sorted_wrt (\<lambda>x y. f x \<le> f y) (sort xs)"
  proof (rule sorted_wrt_mono_rel [of "sort xs" "(\<le>)"])
    fix x y
    assume "x \<in> set (sort xs)" "y \<in> set (sort xs)" "x \<le> y"
    then show "f x \<le> f y" using assms [of x y] by (cases "x = y") (auto simp: less_le)
  next
    show "sorted_wrt (\<le>) (sort xs)" by simp
  qed
  then show "sorted (map f (sort xs))" by (simp add: sorted_map)
qed

lemma glob_segment_txt_name: "i < 1000 \<Longrightarrow> glob_segment_txt (segment_txt i)"
  by (simp add: glob_segment_txt_def segment_txt_def fmt_03d_three suffix_def)

lemma split_on_absent:
  "c \<notin> set s \<Longrightarrow> split_on [c] acc s = [acc @ s]"
  by (induction s arbitrary: acc) auto

lemma takeWhile_until:
  "c \<notin> set xs \<Longrightarrow> takeWhile (\<lambda>d. d \<noteq> c) (xs @ c # ys) = xs"
  by (induction xs) auto

lemma rfind_last:
  assumes "c \<notin> set ext"
  shows "rfind c (base @ c # ext) = Some (length base)"
proof -
  have "takeWhile (\<lambda>d. d \<noteq> c) (rev ext @ c # rev base) = rev ext"
    using assms by (simp add: takeWhile_until)
  then show ?thesis by (simp add: rfind_def)
qed

lemma stem_plain:
  assumes "CHR ''/'' \<notin> set (base @ CHR ''.'' # ext)" "CHR ''.'' \<notin> set ext"
    "base \<noteq> []" "ext \<noteq> []"
  shows "stem (base @ CHR ''.'' # ext) = base"
proof -
  have "py_split ''/'' (base @ CHR ''.'' # ext) = [base @ CHR ''.'' # ext]"
    using split_on_absent [OF assms(1), of "[]"] by (simp add: py_split_def)
  moreover have "0 < length base" "length base < length (base @ CHR ''.'' # ext) - 1"
    using assms(3,4) by simp_all
  ultimately show ?thesis
    by (simp add: stem_def rfind_last [OF assms(2)])
qed

lemma stem_segment_wav:
  assumes "i < 1000"
  shows "stem (segment_wav i) = ''segment_'' @ fmt_03d i"
proof -
  have d: "i div 100 < 10" "i div 10 mod 10 < 10" "i mod 10 < 10" using assms by simp_all
  note n = digit_char_not_sep [OF d(1)] digit_char_not_sep [OF d(2)] digit_char_not_sep [OF d(3)]
  have "segment_wav i = (''segment_'' @ fmt_03d i) @ CHR ''.'' # ''wav''"
    by (simp add: segment_wav_def)
  moreover have "CHR ''/'' \<notin> set ((''segment_'' @ fmt_03d i) @ CHR ''.'' # ''wav'')"
    using n by (auto simp: fmt_03d_three [OF assms])
  ultimately show ?thesis
    using stem_plain [of "''segment_'' @ fmt_03d i" "''wav''"] by simp
qed

lemma transcript_name_record:
  "i < 1000 \<Longrightarrow> transcript_name (asdict (record_of i w)) = segment_txt i"
  by (simp add: transcript_name_def asdict_def record_of_def stem_segment_wav segment_txt_def)

lemma transcript_names_numbered:
  "i + length ws \<le> 1000 \<Longrightarrow>
   map (transcript_name \<circ> asdict) (number_from i ws) = map segment_txt [i ..< i + length ws]"
proof (induction ws arbitrary: i)
  case Nil
  then show ?case by simp
next
  case (Cons w ws)
  have u: "[i ..< i + length (w # ws)] = i # [Suc i ..< Suc i + length ws]"
    by (subst upt_rec) simp
  from Cons.prems have i: "i < 1000" and le: "Suc i + length ws \<le> 1000" by simp_all
  have "map (transcript_name \<circ> asdict) (number_from i (w # ws)) =
        transcript_name (asdict (record_of i w)) #
        map (transcript_name \<circ> asdict) (number_from (Suc i) ws)"
    by simp
  also have "\<dots> = segment_txt i # map segment_txt [Suc i ..< Suc i + length ws]"
    by (simp only: transcript_name_record [OF i] Cons.IH [OF le])
  also have "\<dots> = map segment_txt [i ..< i + length (w # ws)]"
    by (simp only: u list.map)
  finally show ?case .
qed

lemma fallback_files_names:
  assumes "\<forall>i \<in> set idxs. i < 1000"
  shows "fallback_files (map segment_txt idxs) = map segment_txt (sort idxs)"
proof -
  have "filter glob_segment_txt (map segment_txt idxs) = map segment_txt idxs"
    using assms by (simp add: filter_id_conv glob_segment_txt_name)
  moreover have "sort (map segment_txt idxs) = map segment_txt (sort idxs)"
    using assms by (intro sort_map_strict_mono segment_txt_less) auto
  ultimately show ?thesis by (simp add: fallback_files_def)
qed

lemma fallback_files_mset:
  "mset (filter glob_segment_txt listing) = mset names \<Longrightarrow> sorted names \<Longrightarrow>
   fallback_files listing = names"
  unfolding fallback_files_def by (rule properties_for_sort) simp_all

lemma sorted_segment_txt:
  assumes "j \<le> 1000"
  shows "sorted (map segment_txt [i ..< j])"
proof -
  have "sort (map segment_txt [i ..< j]) = map segment_txt (sort [i ..< j])"
    using assms by (intro sort_map_strict_mono segment_txt_less) auto
  then have "sort (map segment_txt [i ..< j]) = map segment_txt [i ..< j]"
    by (simp add: sorted_sort_id)
  then show ?thesis by (metis sorted_sort)
qed

text \<open>
  Claim C9 (fallback equivalence), for indices below 1000: sorting transcript
  names \<^verbatim>\<open>segment_NNN.txt\<close> of indices up to 999 by name puts them in ascending
  index order; and when the directory's \<^verbatim>\<open>segment_*.txt\<close> files are the
  transcripts of the records numbered \<open>1, \<dots>, k\<close> with \<open>k \<le> 999\<close>, in any order
  and among any other files, the fallback visits them in the order in which
  the ledger of these records names them.
\<close>

theorem fallback_order:
  "((\<forall>i \<in> set idxs. i < 1000) \<longrightarrow>
      fallback_files (map segment_txt idxs) = map segment_txt (sort idxs)) \<and>
   (length ws < 1000 \<longrightarrow>
    mset (filter glob_segment_txt listing) =
      mset (map (transcript_name \<circ> asdict) (number_from 1 ws)) \<longrightarrow>
      fallback_files listing = map (transcript_name \<circ> asdict) (number_from 1 ws))"
proof (intro conjI impI)
  assume "\<forall>i \<in> set idxs. i < 1000"
  then show "fallback_files (map segment_txt idxs) = map segment_txt (sort idxs)"
    by (rule fallback_files_names)
next
  assume len: "length ws < 1000"
    and m: "mset (filter glob_segment_txt listing) =
      mset (map (transcript_name \<circ> asdict) (number_from 1 ws))"
  from len have names: "map (transcript_name \<circ> asdict) (number_from 1 ws) =
      map segment_txt [1 ..< 1 + length ws]"
    by (intro transcript_names_numbered) simp
  have "sorted (map segment_txt [1 ..< 1 + length ws])"
    using len by (intro sorted_segment_txt) simp
  with m show "fallback_files listing = map (transcript_name \<circ> asdict) (number_from 1 ws)"
    unfolding names by (intro fallback_files_mset)
qed

text \<open>The format \<^verbatim>\<open>:03d\<close> writes index 1000 with four digits, and
  \<^verbatim>\<open>segment_1000.txt\<close> sorts between \<^verbatim>\<open>segment_100.txt\<close> and
  \<^verbatim>\<open>segment_101.txt\<close>.\<close>

theorem fallback_order_counterexample:
  "map segment_txt [100, 101, 1000] =
     [''segment_100.txt'', ''segment_101.txt'', ''segment_1000.txt''] \<and>
   fallback_files [''segment_100.txt'', ''segment_101.txt'', ''segment_1000.txt''] =
     [''segment_100.txt'', ''segment_1000.txt'', ''segment_101.txt'']"
  by code_simp

text \<open>Three names out of order, and a directory with two transcripts and
  another file.\<close>

theorem fallback_order_witness:
  "list_all (\<lambda>i. i < 1000) [3, 1, 2::nat] \<and>
   fallback_files (map segment_txt [3, 1, 2]) =
     [''segment_001.txt'', ''segment_002.txt'', ''segment_003.txt''] \<and>
   length [(0, 41), (41, 100::real)] < 1000 \<and>
   mset (filter glob_segment_txt [''segment_002.txt'', ''notes.txt'', ''segment_001.txt'']) =
     mset (map (transcript_name \<circ> asdict) (number_from 1 [(0, 41), (41, 100)])) \<and>
   fallback_files [''segment_002.txt'', ''notes.txt'', ''segment_001.txt''] =
     map (transcript_name \<circ> asdict) (number_from 1 [(0, 41), (41, 100)])"
proof -
  let ?ws = "[(0, 41), (41, 100::real)]"
  let ?listing = "[''segment_002.txt'', ''notes.txt'', ''segment_001.txt'']"
  have h1: "\<forall>i \<in> set [3, 1, 2::nat]. i < 1000" by simp
  have h2: "length ?ws < 1000" by simp
  have n: "map segment_txt [1, 2, 3] =
      [''segment_001.txt'', ''segment_002.txt'', ''segment_003.txt'']"
    by code_simp
  have n2: "map segment_txt [1 ..< 1 + length ?ws] = [''segment_001.txt'', ''segment_002.txt'']"
    by code_simp
  have names: "map (transcript_name \<circ> asdict) (number_from 1 ?ws) =
      [''segment_001.txt'', ''segment_002.txt'']"
    using transcript_names_numbered [of 1 ?ws] by (simp only: n2) simp
  have f: "filter glob_segment_txt ?listing = [''segment_002.txt'', ''segment_001.txt'']"
    by (simp add: glob_segment_txt_def suffix_to_prefix)
  have h3: "mset (filter glob_segment_txt ?listing) =
      mset (map (transcript_name \<circ> asdict) (number_from 1 ?ws))"
    by (simp only: f names) simp
  have s: "sort [3, 1, 2::nat] = [1, 2, 3]" by simp
  from fallback_order [of "[3, 1, 2]" ?ws ?listing] h1 h2 h3
  have a: "fallback_files (map segment_txt [3, 1, 2]) = map segment_txt (sort [3, 1, 2])"
    and b: "fallback_files ?listing = map (transcript_name \<circ> asdict) (number_from 1 ?ws)"
    by blast+
  from a have a': "fallback_files (map segment_txt [3, 1, 2]) =
      [''segment_001.txt'', ''segment_002.txt'', ''segment_003.txt'']"
    by (simp only: s n)
  from h1 have h1': "list_all (\<lambda>i. i < 1000) [3, 1, 2::nat]" by (simp only: list_all_iff)
  from h1' a' h2 h3 b show ?thesis by (intro conjI)
qed

end
